theory Spec2Isabelle
  imports Main "HOL-Library.Word"
begin

unbundle bit_operations_syntax

section \<open>Data model\<close>

text \<open>
  The header \<^verbatim>\<open>BitManipulation.h\<close> works on \<^verbatim>\<open>int\<close> and \<^verbatim>\<open>unsigned int\<close>.
  Both are 32-bit values and are modelled as \<open>32 word\<close>: \<open>+\<close> and \<open>-\<close> wrap around,
  \<open>unat\<close> reads the unsigned value, \<open>sint\<close> the two's-complement one. The operators
  that differ between the two C++ types are chosen per use: \<^verbatim>\<open>>>\<close> is \<open>drop_bit\<close> on
  \<^verbatim>\<open>unsigned int\<close> and \<open>signed_drop_bit\<close> (sign-propagating) on \<^verbatim>\<open>int\<close>;
  \<^verbatim>\<open><<\<close> is \<open>push_bit\<close> on both (two's complement, bits shifted out are lost).
\<close>

type_synonym c_int = "32 word"
type_synonym c_uint = "32 word"

text \<open>The contextual conversion of an \<^verbatim>\<open>int\<close> to \<^verbatim>\<open>bool\<close>: nonzero is true.\<close>

definition int_to_bool :: "c_int \<Rightarrow> bool" where
  "int_to_bool v = (v \<noteq> 0)"

text \<open>The integral promotion of a \<^verbatim>\<open>bool\<close> operand of \<^verbatim>\<open>&\<close>: false is 0, true is 1.\<close>

definition bool_to_int :: "bool \<Rightarrow> c_int" where
  "bool_to_int b = (if b then 1 else 0)"

text \<open>
  \<^verbatim>\<open>SwapNumbers\<close> writes through two pointers. Memory is a store from addresses to
  \<^verbatim>\<open>int\<close> values, so that two pointers may or may not name the same cell.
\<close>

type_synonym addr = nat
type_synonym store = "addr \<Rightarrow> c_int"

section \<open>The functions of the header\<close>

text \<open>\<^verbatim>\<open>return x && (!x & (x - 1));\<close>\<close>

definition IsPowerOfTwo :: "c_int \<Rightarrow> bool" where
  "IsPowerOfTwo x =
     (int_to_bool x \<and> int_to_bool (bool_to_int (\<not> int_to_bool x) AND (x - 1)))"

text \<open>\<^verbatim>\<open>*a ^= *b; *b ^= *a; *a ^= *b;\<close> Each statement reads the store left by the one before.\<close>

definition SwapNumbers :: "addr \<Rightarrow> addr \<Rightarrow> store \<Rightarrow> store" where
  "SwapNumbers a b s =
     (let s1 = s(a := s a XOR s b);
          s2 = s1(b := s1 b XOR s1 a);
          s3 = s2(a := s2 a XOR s2 b)
      in s3)"

text \<open>\<^verbatim>\<open>const unsigned int num = n ^ (n >> 1); return (((num + 1) & num) == 0);\<close>\<close>

definition BitsAreInAltOrder :: "c_uint \<Rightarrow> bool" where
  "BitsAreInAltOrder n =
     (let num = n XOR drop_bit 1 n
      in ((num + 1) AND num) = 0)"

text \<open>\<^verbatim>\<open>return ((a ^ b) == 0);\<close>\<close>

definition CompareIntegers :: "c_int \<Rightarrow> c_int \<Rightarrow> bool" where
  "CompareIntegers a b = ((a XOR b) = 0)"

text \<open>
  \<^verbatim>\<open>int x = nSeed; x ^= x << 13; x ^= x >> 17; x ^= x << 5; return x;\<close>
  The local \<^verbatim>\<open>x\<close> is an \<^verbatim>\<open>int\<close>: the conversion from the unsigned seed keeps the bit
  pattern, and \<^verbatim>\<open>x >> 17\<close> is the shift of a signed value, which copies the sign bit.
\<close>

definition GeneratePseudoRandomNumber :: "c_uint \<Rightarrow> c_int" where
  "GeneratePseudoRandomNumber nSeed =
     (let x0 = nSeed;
          x1 = x0 XOR push_bit 13 x0;
          x2 = x1 XOR signed_drop_bit 17 x1;
          x3 = x2 XOR push_bit 5 x2
      in x3)"

text \<open>\<^verbatim>\<open>return (x & 1) == 0;\<close>\<close>

definition IsNumberEven :: "c_int \<Rightarrow> bool" where
  "IsNumberEven x = ((x AND 1) = 0)"

text \<open>\<^verbatim>\<open>return (x | 0);\<close> The \<^verbatim>\<open>int\<close> result is converted to the \<^verbatim>\<open>bool\<close> return type.\<close>

definition IsAtLeastOneBitSet :: "c_int \<Rightarrow> bool" where
  "IsAtLeastOneBitSet x = int_to_bool (x OR 0)"

text \<open>
  \<^verbatim>\<open>int nCount = 0; unsigned int nCopy = x;
  while (nCopy != 0) { nCount++; nCopy &= (nCopy - 1); }
  return nCount;\<close>
  The loop is a recursion in the option monad: a run that never left the loop would be
  \<open>None\<close>.
\<close>

partial_function (option) GetBitCount_loop :: "c_int \<Rightarrow> c_uint \<Rightarrow> c_int option" where
  "GetBitCount_loop nCount nCopy =
     (if nCopy \<noteq> 0 then GetBitCount_loop (nCount + 1) (nCopy AND (nCopy - 1))
      else Some nCount)"

declare GetBitCount_loop.simps [code]

definition GetBitCount :: "c_uint \<Rightarrow> c_int option" where
  "GetBitCount x = GetBitCount_loop 0 x"

section \<open>Specification-side notions\<close>

text \<open>The unsigned xorshift computation of the specification: every shift is logical.\<close>

definition xorshift_unsigned :: "c_uint \<Rightarrow> c_uint" where
  "xorshift_unsigned seed =
     (let x0 = seed;
          x1 = x0 XOR push_bit 13 x0;
          x2 = x1 XOR drop_bit 17 x1;
          x3 = x2 XOR push_bit 5 x2
      in x3)"

text \<open>The population count: the number of positions below 32 whose bit is set.\<close>

definition popcount :: "32 word \<Rightarrow> nat" where
  "popcount x = length (filter (bit x) [0..<32])"

text \<open>
  The bits of a value strictly alternate when, below its most significant set bit, every
  two adjacent bits differ: position \<open>i\<close> counts only if some higher bit is set, which
  leaves the leading zeros out.
\<close>

definition alternating :: "32 word \<Rightarrow> bool" where
  "alternating n =
     (\<forall>i \<in> {0..<31}. (\<exists>j \<in> {i + 1..<32}. bit n j) \<longrightarrow> bit n i \<noteq> bit n (i + 1))"

text \<open>
  A power of two in the range of \<^verbatim>\<open>int\<close>: \<open>2 ^ k\<close> for \<open>k\<close> from 0 to 30 (\<open>2 ^ 31\<close> is not a
  positive \<^verbatim>\<open>int\<close>).
\<close>

definition is_pow2 :: "c_int \<Rightarrow> bool" where
  "is_pow2 x = (\<exists>k \<in> {0..<31}. x = 2 ^ k)"

section \<open>Facts about XOR on words\<close>

lemma xor_eq_0_word: "(a XOR b = 0) = (a = b)" for a b :: "32 word"
  by (metis xor.right_neutral xor_self_eq xor.assoc xor.left_neutral)

lemma xor_cancel_word: "(a XOR b = a XOR c) = (b = c)" for a b c :: "32 word"
  by (metis xor.left_commute xor_self_eq xor.right_neutral)

section \<open>Equality by XOR\<close>

text \<open>
  C10. For every pair of 32-bit integers, \<open>CompareIntegers a b\<close> gives the result of the
  direct equality comparison \<open>a = b\<close>.
\<close>

theorem CompareIntegers_is_equality: "CompareIntegers a b = (a = b)"
  by (simp add: CompareIntegers_def xor_eq_0_word)

section \<open>The power-of-two test\<close>

text \<open>
  In \<^verbatim>\<open>x && (!x & (x - 1))\<close> the negation binds to \<^verbatim>\<open>x\<close> alone. When \<^verbatim>\<open>x\<close> is nonzero,
  \<^verbatim>\<open>!x\<close> is 0 and so is the conjunction with \<^verbatim>\<open>x - 1\<close>; when \<^verbatim>\<open>x\<close> is zero the left
  operand of \<^verbatim>\<open>&&\<close> is already false. The function returns false on every input.
\<close>

lemma IsPowerOfTwo_never: "IsPowerOfTwo x = False"
  by (simp add: IsPowerOfTwo_def int_to_bool_def bool_to_int_def)

text \<open>
  C1. The claim is that \<open>IsPowerOfTwo x\<close> holds exactly for the powers of two. The code
  departs from it at \<open>x = 1\<close> (and at every other power of two): 1 is \<open>2 ^ 0\<close>, and the
  function returns false.
\<close>

theorem IsPowerOfTwo_rejects_one: "is_pow2 1 \<and> IsPowerOfTwo 1 = False"
proof
  have "(1 :: c_int) = 2 ^ 0" by simp
  moreover have "(0::nat) \<in> {0..<31}" by simp
  ultimately show "is_pow2 1" unfolding is_pow2_def by (rule rev_bexI [rotated])
  show "IsPowerOfTwo 1 = False"
    by (simp add: IsPowerOfTwo_def int_to_bool_def bool_to_int_def)
qed

section \<open>Any bit set\<close>

text \<open>
  C3. \<open>IsAtLeastOneBitSet x\<close> holds exactly when \<open>x\<close> is nonzero, that is when one of its
  32 bits is set; it is false at 0 and true at 5.
\<close>

theorem IsAtLeastOneBitSet_iff_nonzero:
  "IsAtLeastOneBitSet x = (x \<noteq> 0) \<and>
   IsAtLeastOneBitSet x = (\<exists>i \<in> {0..<32}. bit x i) \<and>
   \<not> IsAtLeastOneBitSet 0 \<and> IsAtLeastOneBitSet 5"
proof -
  have "(x \<noteq> 0) = (\<exists>i \<in> {0..<32}. bit x i)"
    by (auto simp: bit_eq_iff dest: bit_imp_le_length)
  then show ?thesis
    by (simp add: IsAtLeastOneBitSet_def int_to_bool_def)
qed

section \<open>Evenness\<close>

lemma and_1_word: "((x::32 word) AND 1 = 0) = even x"
  by (simp add: and_one_eq even_iff_mod_2_eq_zero)

lemma even_sint: "even (sint (x::32 word)) = even x"
  by (metis even_of_int_iff of_int_sint scast_id)

text \<open>
  C9. \<open>IsNumberEven x\<close> holds exactly when bit 0 of \<open>x\<close> is clear, and that is exactly when
  the two's-complement value of \<open>x\<close> is even, negative values included; it is true at 4,
  false at 7 and true at \<open>-2\<close>.
\<close>

theorem IsNumberEven_iff_even:
  "IsNumberEven x = (\<not> bit x 0) \<and>
   IsNumberEven x = even (sint x) \<and>
   IsNumberEven 4 \<and> \<not> IsNumberEven 7 \<and> IsNumberEven (- 2)"
proof -
  have "IsNumberEven x = (\<not> bit x 0)"
    by (simp add: IsNumberEven_def and_1_word bit_0)
  moreover have "IsNumberEven x = even (sint x)"
    by (simp add: IsNumberEven_def and_1_word even_sint)
  moreover have "IsNumberEven 4" "\<not> IsNumberEven 7" "IsNumberEven (- 2)"
    by (simp_all add: IsNumberEven_def)
  ultimately show ?thesis by blast
qed

section \<open>The XOR swap\<close>

text \<open>
  C4. When the two pointers name distinct cells, \<open>SwapNumbers\<close> leaves the old value of
  \<open>b\<close> in \<open>a\<close> and the old value of \<open>a\<close> in \<open>b\<close>, and changes no other cell.
\<close>

theorem SwapNumbers_distinct:
  "a \<noteq> b \<Longrightarrow> SwapNumbers a b s = s(a := s b, b := s a)"
proof -
  assume ab: "a \<noteq> b"
  have "(s a XOR s b) XOR (s b XOR (s a XOR s b)) = s b"
    by (metis xor.assoc xor.commute xor.right_neutral xor_self_eq)
  moreover have "s b XOR (s a XOR s b) = s a"
    by (metis xor.commute xor.left_commute xor.right_neutral xor_self_eq)
  ultimately show ?thesis
    using ab by (simp add: SwapNumbers_def Let_def fun_eq_iff)
qed

theorem SwapNumbers_distinct_witness:
  "(0::addr) \<noteq> 1 \<and>
   SwapNumbers 0 1 ((\<lambda>_. 0)(0 := 3, 1 := 5)) 0 = 5 \<and>
   SwapNumbers 0 1 ((\<lambda>_. 0)(0 := 3, 1 := 5)) 1 = 3"
proof -
  have h: "(0::addr) \<noteq> 1" by simp
  show ?thesis
    using h SwapNumbers_distinct [OF h, of "(\<lambda>_. 0)(0 := 3, 1 := 5)"] by simp
qed

text \<open>
  C5. When both pointers name the same cell, that cell holds 0 after \<open>SwapNumbers\<close>,
  whatever it held before; no other cell changes.
\<close>

theorem SwapNumbers_aliased: "SwapNumbers a a s = s(a := 0)"
  by (simp add: SwapNumbers_def Let_def fun_eq_iff)

section \<open>The population count\<close>

text \<open>
  Clearing the lowest set bit, on natural numbers: \<open>n AND (n - 1)\<close> for an odd \<open>n\<close> drops
  the last bit, and for an even \<open>n\<close> it is twice the same operation on \<open>n div 2\<close>.
\<close>

lemma and_odd_pred: "(2 * m + 1) AND (2 * m) = (2 * m :: nat)"
  by (subst and_rec) simp

lemma and_even_pred:
  assumes "0 < m"
  shows "(2 * m) AND (2 * m - 1) = 2 * (m AND (m - 1) :: nat)"
proof -
  from assms have e: "2 * m - 1 = 2 * (m - 1) + 1" by simp
  show ?thesis
    unfolding e by (subst and_rec) simp
qed

lemma count_bits_Suc:
  "length (filter (bit (n::nat)) [0..<Suc k]) =
     of_bool (odd n) + length (filter (bit (n div 2)) [0..<k])"
proof -
  have "[0..<Suc k] = 0 # map Suc [0..<k]"
    by (simp add: map_Suc_upt upt_conv_Cons del: upt_Suc)
  then show ?thesis
    by (simp add: filter_map comp_def bit_Suc bit_0 del: upt_Suc)
qed

lemma count_bits_clear_lowest:
  "0 < n \<Longrightarrow> n < 2 ^ k \<Longrightarrow>
     length (filter (bit (n AND (n - 1))) [0..<k]) + 1 = length (filter (bit (n::nat)) [0..<k])"
proof (induction k arbitrary: n)
  case 0
  then show ?case by simp
next
  case (Suc k)
  show ?case
  proof (cases "odd n")
    case True
    then obtain m where n: "n = 2 * m + 1" by (auto elim: oddE)
    have "n AND (n - 1) = 2 * m"
      using and_odd_pred [of m] by (simp add: n)
    then show ?thesis
      unfolding count_bits_Suc by (simp add: n)
  next
    case False
    then obtain m where n: "n = 2 * m" by (auto elim: evenE)
    with Suc.prems have m: "0 < m" "m < 2 ^ k" by simp_all
    have "n AND (n - 1) = 2 * (m AND (m - 1))"
      using and_even_pred [OF m(1)] by (simp add: n)
    then show ?thesis
      unfolding count_bits_Suc using Suc.IH [OF m] by (simp add: n)
  qed
qed

lemma popcount_unat: "popcount w = length (filter (bit (unat w)) [0..<32])"
  by (simp add: popcount_def bit_unsigned_iff cong: filter_cong)

lemma unat_and_pred: "w \<noteq> 0 \<Longrightarrow> unat (w AND (w - 1)) = unat w AND (unat w - 1)" for w :: "32 word"
  by (simp add: unat_minus_one unsigned_and_eq)

lemma popcount_clear_lowest:
  assumes "w \<noteq> 0"
  shows "popcount (w AND (w - 1)) + 1 = popcount w"
proof -
  have "0 < unat w" using assms by (simp add: unat_gt_0)
  moreover have "unat w < 2 ^ 32" using unsigned_less [of w] by simp
  ultimately show ?thesis
    unfolding popcount_unat unat_and_pred [OF assms]
    by (rule count_bits_clear_lowest)
qed

lemma word_and_pred_less: "n \<noteq> 0 \<Longrightarrow> n AND (n - 1) < (n :: 32 word)"
  using less_eq_dec_iff word_and_le1 by blast

lemma GetBitCount_loop_popcount:
  "GetBitCount_loop c n = Some (c + of_nat (popcount n))"
proof (induction n arbitrary: c rule: measure_induct_rule [where f = unat])
  case (less n)
  show ?case
  proof (cases "n = 0")
    case True
    then show ?thesis
      by (subst GetBitCount_loop.simps) (simp add: popcount_def)
  next
    case False
    have "unat (n AND (n - 1)) < unat n"
      using word_and_pred_less [OF False] by (simp add: word_less_nat_alt)
    then have "GetBitCount_loop (c + 1) (n AND (n - 1)) =
        Some (c + 1 + of_nat (popcount (n AND (n - 1))))"
      by (rule less.IH)
    also have "c + 1 + of_nat (popcount (n AND (n - 1))) = c + of_nat (popcount n)"
      using popcount_clear_lowest [OF False, symmetric] by simp
    finally show ?thesis
      using False by (subst GetBitCount_loop.simps) simp
  qed
qed

lemma popcount_le: "popcount x \<le> 32"
  using length_filter_le [of "bit x" "[0..<32]"] by (simp add: popcount_def)

lemma sint_of_nat_small: "n \<le> 32 \<Longrightarrow> sint (of_nat n :: 32 word) = int n"
  by (simp add: signed_of_nat signed_take_bit_int_eq_self)

text \<open>
  C7. \<open>GetBitCount x\<close> returns, as an \<^verbatim>\<open>int\<close>, the number of set bits of \<open>x\<close>; it returns 0
  at 0, 3 at 7, 8 at 255 and 1 at \<open>1 << 31\<close>.
\<close>

theorem GetBitCount_is_popcount:
  "map_option sint (GetBitCount x) = Some (int (popcount x)) \<and>
   GetBitCount 0 = Some 0 \<and> GetBitCount 7 = Some 3 \<and> GetBitCount 255 = Some 8 \<and>
   GetBitCount (push_bit 31 1) = Some 1"
proof -
  have "map_option sint (GetBitCount x) = Some (int (popcount x))"
    by (simp add: GetBitCount_def GetBitCount_loop_popcount sint_of_nat_small popcount_le)
  moreover have "GetBitCount 0 = Some 0" "GetBitCount 7 = Some 3" "GetBitCount 255 = Some 8"
    "GetBitCount (push_bit 31 1) = Some 1"
    by (simp_all add: GetBitCount_def GetBitCount_loop.simps)
  ultimately show ?thesis by blast
qed

text \<open>
  C8. The loop of \<open>GetBitCount\<close> ends on every input: the function returns a value for
  every \<open>x\<close>, and each iteration replaces a nonzero \<open>x\<close> by the strictly smaller
  \<open>x AND (x - 1)\<close>. The other functions of the header are straight-line code.
\<close>

theorem GetBitCount_terminates:
  "(\<exists>c. GetBitCount x = Some c) \<and> (x \<noteq> 0 \<longrightarrow> x AND (x - 1) < x)"
  by (simp add: GetBitCount_def GetBitCount_loop_popcount word_and_pred_less)

theorem GetBitCount_terminates_witness:
  "(\<exists>c. GetBitCount 12 = Some c) \<and> (12 :: c_uint) \<noteq> 0 \<and> (12 :: c_uint) AND (12 - 1) < 12"
  using GetBitCount_terminates [of 12] by simp

section \<open>Alternating bits\<close>

text \<open>
  \<open>(w + 1) AND w\<close> is 0 exactly when \<open>w\<close> is a block of low ones, \<open>mask k\<close>; the all-ones
  word is the case where \<open>w + 1\<close> wraps around to 0.
\<close>

lemma succ_and_odd: "(2 * m + 1 + 1) AND (2 * m + 1) = 2 * ((m + 1) AND m :: nat)"
proof -
  have e: "2 * m + 1 + 1 = 2 * (m + 1)" by simp
  show ?thesis
    unfolding e by (subst and_rec) simp
qed

lemma succ_and_zero_nat:
  "(m + 1) AND m = (0::nat) \<Longrightarrow> \<exists>k. m = mask k"
proof (induction m rule: less_induct)
  case (less m)
  show ?case
  proof (cases "odd m")
    case False
    then obtain q where m: "m = 2 * q" by (auto elim: evenE)
    with less.prems and_odd_pred [of q] have "m = 0" by simp
    then have "m = mask 0" by simp
    then show ?thesis ..
  next
    case True
    then obtain q where m: "m = 2 * q + 1" by (auto elim: oddE)
    with less.prems succ_and_odd [of q] have "(q + 1) AND q = 0" by simp
    moreover have "q < m" using m by simp
    ultimately obtain k where "q = mask k" using less.IH by blast
    moreover have "Suc (2 * (x - Suc 0)) = 2 * x - Suc 0" if "1 \<le> x" for x :: nat
      using that by arith
    from this [of "2 ^ k"] have "2 * (2 ^ k - Suc 0) + 1 = (2::nat) ^ Suc k - 1" by simp
    ultimately have "m = mask (Suc k)"
      unfolding m mask_eq_exp_minus_1 by simp
    then show ?thesis ..
  qed
qed

lemma mask_min_word: "(mask k :: 32 word) = mask (min k 32)"
  by (rule bit_word_eqI) (simp add: bit_mask_iff)

lemma succ_and_zero_word:
  fixes w :: "32 word"
  assumes "(w + 1) AND w = 0"
  shows "\<exists>k\<le>32. w = mask k"
proof (cases "w + 1 = 0")
  case True
  then have "w = mask 32" using max_word_wrap [of w] by (simp add: mask_eq_exp_minus_1)
  then show ?thesis by blast
next
  case False
  then have "unat (w + 1) = unat w + 1"
    using unatSuc [of w] by (simp add: add.commute)
  moreover have "unat ((w + 1) AND w) = 0" using assms by simp
  ultimately have "(unat w + 1) AND unat w = 0"
    by (simp add: unsigned_and_eq)
  then obtain k where "unat w = mask k" using succ_and_zero_nat by blast
  then have "of_nat (unat w) = (of_nat (mask k) :: 32 word)" by simp
  then have "w = mask k" by (simp add: of_nat_mask_eq)
  then have "w = mask (min k 32)" using mask_min_word [of k] by simp
  then show ?thesis by (metis min.cobounded2)
qed

lemma mask_succ_and_zero: "((mask k :: 32 word) + 1) AND mask k = 0"
  by (simp add: inc_mask_eq_exp) (rule bit_word_eqI, simp add: bit_simps)

lemma succ_and_zero_iff:
  "((w + 1) AND w = 0) = (\<exists>k\<le>32. w = mask k)" for w :: "32 word"
  using succ_and_zero_word [of w] mask_succ_and_zero by auto

lemma bit_xor_shift:
  "bit (n XOR drop_bit 1 n) i = (bit n i \<noteq> bit n (Suc i))" for n :: "32 word"
  by (simp add: bit_xor_iff bit_drop_bit_eq)

lemma xor_shift_eq_mask:
  "k \<le> 32 \<Longrightarrow> (n XOR drop_bit 1 n = mask k) =
     (\<forall>i<32. (bit n i \<noteq> bit n (Suc i)) = (i < k))" for n :: "32 word"
  by (auto simp: bit_eq_iff bit_xor_iff bit_drop_bit_eq bit_mask_iff dest: bit_imp_le_length)

lemma no_bit_above:
  fixes n :: "32 word"
  assumes "\<forall>i<32. (bit n i \<noteq> bit n (Suc i)) = (i < k)"
  shows "k \<le> j \<Longrightarrow> \<not> bit n j"
proof (induction "32 - j" arbitrary: j)
  case 0
  then show ?case by (auto dest: bit_imp_le_length)
next
  case (Suc d)
  then have "j < 32" "d = 32 - Suc j" "k \<le> Suc j" by simp_all
  then have "\<not> bit n (Suc j)" using Suc.hyps(1) by blast
  moreover have "bit n j = bit n (Suc j)"
    using assms \<open>j < 32\<close> \<open>k \<le> j\<close> by auto
  ultimately show ?case by simp
qed

lemma highest_bit:
  fixes n :: "32 word"
  assumes "n \<noteq> 0"
  shows "\<exists>h<32. bit n h \<and> (\<forall>j>h. \<not> bit n j)"
proof -
  let ?S = "{j. bit n j}"
  have "?S \<subseteq> {..<32}"
    using bit_imp_le_length [of n] by fastforce
  then have fin: "finite ?S"
    by (rule finite_subset) simp
  have ne: "?S \<noteq> {}"
  proof
    assume "?S = {}"
    then have "\<And>j. \<not> bit n j" by blast
    then have "n = 0" by (intro bit_eqI) simp
    with assms show False by simp
  qed
  define h where "h = Max ?S"
  have "h \<in> ?S" unfolding h_def using fin ne by (rule Max_in)
  then have b: "bit n h" by simp
  then have "h < 32" using bit_imp_le_length [of n h] by simp
  moreover have "\<not> bit n j" if "h < j" for j
  proof
    assume "bit n j"
    then have "j \<in> ?S" by simp
    with fin have "j \<le> h" unfolding h_def by (rule Max_ge)
    with that show False by simp
  qed
  ultimately show ?thesis using b by blast
qed

lemma alternating_iff_mask:
  "alternating n = (\<exists>k\<le>32. \<forall>i<32. (bit n i \<noteq> bit n (Suc i)) = (i < k))"
proof
  assume alt: "alternating n"
  show "\<exists>k\<le>32. \<forall>i<32. (bit n i \<noteq> bit n (Suc i)) = (i < k)"
  proof (cases "n = 0")
    case True
    then have "\<forall>i<32. (bit n i \<noteq> bit n (Suc i)) = (i < 0)" by simp
    then show ?thesis by blast
  next
    case False
    then obtain h where h: "h < 32" "bit n h" "\<And>j. h < j \<Longrightarrow> \<not> bit n j"
      using highest_bit [of n] by blast
    have "(bit n i \<noteq> bit n (Suc i)) = (i < Suc h)" if "i < 32" for i
    proof -
      consider "i < h" | "i = h" | "h < i" by linarith
      then show ?thesis
      proof cases
        case 1
        then have "i \<in> {0..<31}" "h \<in> {i + 1..<32}" using h(1) by simp_all
        with alt h(2) have "bit n i \<noteq> bit n (i + 1)"
          unfolding alternating_def by blast
        with 1 show ?thesis by simp
      next
        case 2
        with h(2) h(3) [of "Suc h"] show ?thesis by simp
      next
        case 3
        with h(3) [of i] h(3) [of "Suc i"] show ?thesis by simp
      qed
    qed
    moreover have "Suc h \<le> 32" using h(1) by simp
    ultimately show ?thesis by blast
  qed
next
  assume "\<exists>k\<le>32. \<forall>i<32. (bit n i \<noteq> bit n (Suc i)) = (i < k)"
  then obtain k where k: "\<forall>i<32. (bit n i \<noteq> bit n (Suc i)) = (i < k)" by blast
  show "alternating n"
    unfolding alternating_def
  proof (intro ballI impI)
    fix i assume i: "i \<in> {0..<31}" and ex: "\<exists>j\<in>{i + 1..<32}. bit n j"
    from ex obtain j where "j \<in> {i + 1..<32}" and "bit n j" by blast
    then have j: "i < j" "bit n j" by simp_all
    have "j < k" using no_bit_above [OF k, of j] j(2) by (cases "k \<le> j") auto
    with j(1) have "i < k" by simp
    with k i show "bit n i \<noteq> bit n (i + 1)" by simp
  qed
qed

text \<open>
  C6. \<open>BitsAreInAltOrder n\<close> holds exactly when the bits of \<open>n\<close> strictly alternate below
  its most significant set bit; it is true at binary 1010, false at binary 1011 and true
  at 0.
\<close>

theorem BitsAreInAltOrder_iff_alternating:
  "BitsAreInAltOrder n = alternating n \<and>
   BitsAreInAltOrder 10 \<and> \<not> BitsAreInAltOrder 11 \<and> BitsAreInAltOrder 0"
proof -
  have "BitsAreInAltOrder n = alternating n"
    unfolding BitsAreInAltOrder_def Let_def succ_and_zero_iff alternating_iff_mask
    using xor_shift_eq_mask [of _ n] by blast
  moreover have "BitsAreInAltOrder 10" "\<not> BitsAreInAltOrder 11" "BitsAreInAltOrder 0"
    by (simp_all add: BitsAreInAltOrder_def)
  ultimately show ?thesis by blast
qed

theorem BitsAreInAltOrder_iff_alternating_witness:
  "alternating 10 \<and> \<not> alternating 11 \<and> alternating 0 \<and> alternating 2863311530"
proof -
  have "BitsAreInAltOrder 2863311530" by (simp add: BitsAreInAltOrder_def)
  then show ?thesis
    using BitsAreInAltOrder_iff_alternating [of 10] BitsAreInAltOrder_iff_alternating [of 11]
      BitsAreInAltOrder_iff_alternating [of 0] BitsAreInAltOrder_iff_alternating [of 2863311530]
    by blast
qed

section \<open>The pseudo-random number generator\<close>

text \<open>
  The last step \<open>x XOR push_bit 5 x\<close> is injective, and the arithmetic and the logical
  shift by 17 agree exactly on the words whose sign bit is clear.
\<close>

lemma push_bit_fixpoint:
  fixes d :: "32 word"
  assumes "d = push_bit 5 d"
  shows "d = 0"
proof -
  have "\<not> bit d i" for i
  proof (induction i rule: less_induct)
    case (less i)
    have "bit d i = bit (push_bit 5 d) i" using assms by simp
    also have "\<dots> = (5 \<le> i \<and> i < 32 \<and> bit d (i - 5))"
      by (auto simp: bit_push_bit_iff dest: bit_imp_le_length)
    finally show ?case using less.IH [of "i - 5"] by auto
  qed
  then show ?thesis by (intro bit_eqI) simp
qed

lemma xorshift_left_inj:
  fixes a b :: "32 word"
  assumes "a XOR push_bit 5 a = b XOR push_bit 5 b"
  shows "a = b"
proof -
  have "(a XOR b) XOR (push_bit 5 a XOR push_bit 5 b) =
      (a XOR push_bit 5 a) XOR (b XOR push_bit 5 b)"
    by (simp add: xor.assoc xor.left_commute)
  also have "\<dots> = 0" using assms by simp
  finally have "a XOR b = push_bit 5 a XOR push_bit 5 b"
    by (simp only: xor_eq_0_word)
  also have "\<dots> = push_bit 5 (a XOR b)"
    by (simp add: push_bit_xor)
  finally have "a XOR b = 0" by (rule push_bit_fixpoint)
  then show ?thesis by (simp add: xor_eq_0_word)
qed

lemma signed_drop_bit_eq_drop_bit:
  "(signed_drop_bit 17 w = drop_bit 17 w) = (\<not> bit w 31)" for w :: "32 word"
proof
  assume eq: "signed_drop_bit 17 w = drop_bit 17 w"
  have "bit (signed_drop_bit 17 w) 31 = bit w 31"
    by (simp add: bit_signed_drop_bit_iff)
  moreover have "\<not> bit (drop_bit 17 w) 31"
    by (auto simp: bit_drop_bit_eq dest: bit_imp_le_length)
  ultimately show "\<not> bit w 31" using eq by simp
next
  assume "\<not> bit w 31"
  then show "signed_drop_bit 17 w = drop_bit 17 w"
    by (intro bit_word_eqI) (auto simp: bit_signed_drop_bit_iff bit_drop_bit_eq dest: bit_imp_le_length)
qed

text \<open>
  The arithmetic shift by 17 is the logical one with bits 15 to 31 filled by the sign bit.
  The last step maps that fill, \<open>0xFFFF8000\<close>, to \<open>0xFFFF8000 XOR 0xFFF00000 = 0xF8000\<close>,
  so the code's result is the unsigned one with bits 15 to 19 flipped when the sign bit
  of the intermediate value is set.
\<close>

lemma signed_drop_bit_as_drop_bit:
  "signed_drop_bit 17 w = drop_bit 17 w XOR (if bit w 31 then NOT (mask 15) else 0)"
  for w :: "32 word"
  by (intro bit_word_eqI)
    (auto simp: bit_signed_drop_bit_iff bit_drop_bit_eq bit_xor_iff bit_not_iff bit_mask_iff
      dest: bit_imp_le_length)

lemma sign_fill_value: "NOT (mask 15) = (0xFFFF8000 :: 32 word)"
  by (simp add: mask_numeral)

lemma sign_fill_step: "(0xFFFF8000 :: 32 word) XOR push_bit 5 0xFFFF8000 = 0xF8000"
  by simp

lemma GeneratePseudoRandomNumber_pinned:
  "GeneratePseudoRandomNumber seed =
     xorshift_unsigned seed XOR (if bit (seed XOR push_bit 13 seed) 31 then 0xF8000 else 0)"
proof -
  let ?x1 = "seed XOR push_bit 13 seed"
  let ?b = "?x1 XOR drop_bit 17 ?x1"
  show ?thesis
  proof (cases "bit ?x1 31")
    case False
    then have "signed_drop_bit 17 ?x1 = drop_bit 17 ?x1"
      by (simp add: signed_drop_bit_as_drop_bit)
    with False show ?thesis
      by (simp add: GeneratePseudoRandomNumber_def xorshift_unsigned_def Let_def)
  next
    case True
    then have sd: "signed_drop_bit 17 ?x1 = drop_bit 17 ?x1 XOR 0xFFFF8000"
      by (simp only: signed_drop_bit_as_drop_bit [of ?x1] sign_fill_value if_True)
    have "GeneratePseudoRandomNumber seed =
        (?b XOR 0xFFFF8000) XOR push_bit 5 (?b XOR 0xFFFF8000)"
      unfolding GeneratePseudoRandomNumber_def Let_def sd by (simp only: xor.assoc)
    also have "\<dots> = (?b XOR push_bit 5 ?b) XOR (0xFFFF8000 XOR push_bit 5 0xFFFF8000)"
      by (simp only: push_bit_xor xor.assoc xor.left_commute)
    also have "\<dots> = (?b XOR push_bit 5 ?b) XOR 0xF8000"
      by (simp only: sign_fill_step)
    also have "?b XOR push_bit 5 ?b = xorshift_unsigned seed"
      by (simp add: xorshift_unsigned_def Let_def)
    finally show ?thesis using True by simp
  qed
qed

lemma GeneratePseudoRandomNumber_eq_unsigned_iff:
  "(GeneratePseudoRandomNumber seed = xorshift_unsigned seed) =
     (\<not> bit (seed XOR push_bit 13 seed) 31)"
proof -
  let ?x1 = "seed XOR push_bit 13 seed"
  let ?a = "?x1 XOR signed_drop_bit 17 ?x1"
  let ?b = "?x1 XOR drop_bit 17 ?x1"
  have "(GeneratePseudoRandomNumber seed = xorshift_unsigned seed) =
      (?a XOR push_bit 5 ?a = ?b XOR push_bit 5 ?b)"
    by (simp add: GeneratePseudoRandomNumber_def xorshift_unsigned_def Let_def)
  also have "\<dots> = (?a = ?b)"
  proof
    assume "?a XOR push_bit 5 ?a = ?b XOR push_bit 5 ?b"
    then show "?a = ?b" by (rule xorshift_left_inj)
  next
    assume "?a = ?b"
    then show "?a XOR push_bit 5 ?a = ?b XOR push_bit 5 ?b" by simp
  qed
  also have "\<dots> = (signed_drop_bit 17 ?x1 = drop_bit 17 ?x1)"
    by (rule xor_cancel_word)
  also have "\<dots> = (\<not> bit ?x1 31)"
    by (rule signed_drop_bit_eq_drop_bit)
  finally show ?thesis .
qed

text \<open>
  C2, as stated: the function returns the value of the unsigned xorshift computation for
  every seed. It does not: at the seed \<open>0x80000000\<close> the code returns \<open>0x8007C000\<close> and
  the unsigned computation gives \<open>0x80084000\<close>.
\<close>

theorem GeneratePseudoRandomNumber_differs_at_sign_bit:
  "GeneratePseudoRandomNumber 0x80000000 = 0x8007C000 \<and>
   xorshift_unsigned 0x80000000 = 0x80084000 \<and>
   GeneratePseudoRandomNumber 0x80000000 \<noteq> xorshift_unsigned 0x80000000"
  by (simp add: GeneratePseudoRandomNumber_def xorshift_unsigned_def Let_def)

text \<open>
  C2, amended: the function computes the three steps on a signed 32-bit \<open>x\<close>, so the
  right shift by 17 copies the sign bit. For every seed its result is the value of the
  unsigned xorshift computation when bit 31 of \<open>seed XOR (seed << 13)\<close> is clear, and that
  value with bits 15 to 19 flipped (XOR \<open>0xF8000\<close>) when the bit is set; so it has the
  bit pattern of the unsigned computation exactly for the seeds where the bit is clear.
\<close>

theorem GeneratePseudoRandomNumber_vs_unsigned:
  "GeneratePseudoRandomNumber seed =
     xorshift_unsigned seed XOR (if bit (seed XOR push_bit 13 seed) 31 then 0xF8000 else 0) \<and>
   (GeneratePseudoRandomNumber seed = xorshift_unsigned seed) =
     (\<not> bit (seed XOR push_bit 13 seed) 31)"
  using GeneratePseudoRandomNumber_pinned [of seed]
    GeneratePseudoRandomNumber_eq_unsigned_iff [of seed]
  by (rule conjI)

theorem GeneratePseudoRandomNumber_vs_unsigned_witness:
  "GeneratePseudoRandomNumber 1 = xorshift_unsigned 1 \<and>
   GeneratePseudoRandomNumber 0x40000 = xorshift_unsigned 0x40000 XOR 0xF8000 \<and>
   GeneratePseudoRandomNumber 0x40000 \<noteq> xorshift_unsigned 0x40000 \<and>
   xorshift_unsigned 0x40000 XOR 0xF8000 = 0x8083C042"
proof -
  have clear: "\<not> bit ((1 :: c_uint) XOR push_bit 13 1) 31"
    by (simp add: bit_simps)
  have set: "bit ((0x40000 :: c_uint) XOR push_bit 13 0x40000) 31"
    by (simp add: bit_simps)
  have val: "xorshift_unsigned 0x40000 XOR 0xF8000 = 0x8083C042"
    by (simp add: xorshift_unsigned_def Let_def)
  have a: "GeneratePseudoRandomNumber 1 = xorshift_unsigned 1"
    using clear GeneratePseudoRandomNumber_vs_unsigned [of 1] by blast
  have b: "GeneratePseudoRandomNumber 0x40000 = xorshift_unsigned 0x40000 XOR 0xF8000"
    using GeneratePseudoRandomNumber_vs_unsigned [of "0x40000"] by (simp only: set if_True)
  have c: "GeneratePseudoRandomNumber 0x40000 \<noteq> xorshift_unsigned 0x40000"
    using set GeneratePseudoRandomNumber_vs_unsigned [of "0x40000"] by blast
  from a b c val show ?thesis by (intro conjI)
qed

end
